theory Spec2Isabelle
  imports Complex_Main "HOL-Library.Word"
begin

unbundle bit_operations_syntax

section \<open>The offscreen document\<close>

text \<open>
  The offscreen document captures the tab's audio, streams it to the recognition service
  over a socket and relays the transcripts. This theory embeds its audio path
  (\<open>downsampleBuffer\<close>, \<open>floatTo16BitPCM\<close>, \<open>enqueuePcm\<close>), its socket handlers with the
  one-time opus fallback, and the reconciler of \<open>ws.onmessage\<close>.

  JavaScript numbers are IEEE doubles. Sample rates, offsets and samples are modelled as
  exact rationals (every finite double is one), so \<open>/\<close>, \<open>*\<close> and \<open>+\<close> are the exact
  operations and \<open>Math.round\<close> is \<open>\<lfloor>x + 1/2\<rfloor>\<close>. The rounding of the double
  arithmetic and of the stores into a \<open>Float32Array\<close>, \<open>NaN\<close> and the infinities are
  outside the model.
\<close>

type_synonym byte = "8 word"

datatype mode = PCM | OPUS

datatype ready_state = CONNECTING | OPEN_STATE | CLOSING | CLOSED

text \<open>The texts handed to \<open>postStatus\<close>, one constructor per template in the source.\<close>

datatype status =
    Connected                   \<comment> \<open>\<open>'Connected to Deepgram'\<close>\<close>
  | SocketError                 \<comment> \<open>\<open>'Deepgram socket error'\<close>\<close>
  | SocketClosed nat string     \<comment> \<open>\<open>`Deepgram socket closed (${evt.code}) ${evt.reason || ''}`\<close>\<close>
  | OpusUnsupported             \<comment> \<open>\<open>'Opus fallback unsupported'\<close>\<close>
  | DeepgramError string        \<comment> \<open>\<open>`Deepgram error: ${...}`\<close>\<close>
  | AllowPrompt                 \<comment> \<open>\<open>'Please allow the capture prompt, then press Start again.'\<close>\<close>
  | StartError string           \<comment> \<open>\<open>`Error: ${e.message}`\<close>\<close>

section \<open>The reconciler: \<open>ws.onmessage\<close>\<close>

text \<open>
  A parsed message, as far as the handler reads it. A field that is absent (or, for
  \<open>languages\<close>, not an array) is \<open>None\<close>; \<open>alternatives\<close> is \<open>msg.channel?.alternatives\<close>,
  empty when any part of the path is missing. A speaker tag is a number, as the service
  sends it; a language tag, the transcript and the elements of \<open>languages\<close> are strings.
\<close>

record dg_word =
  w_speaker :: "nat option"
  w_language :: "string option"

record alternative =
  transcript :: "string option"
  words :: "dg_word list option"
  languages :: "string list option"

record dg_msg =
  msg_type :: "string option"
  alternatives :: "alternative list"
  is_final :: bool
  msg_message :: "string option"
  msg_reason :: "string option"

record transcript_msg =
  final :: bool          \<comment> \<open>\<open>DG_TRANSCRIPT_FINAL\<close> or \<open>DG_TRANSCRIPT_INTERIM\<close>\<close>
  msg_text :: string
  speaker :: string
  language :: string
  detectedLanguages :: "string list"
  msg_words :: "dg_word list option"

datatype action = NoAction | PostMessage transcript_msg | PostStatus status

text \<open>
  A counting object: its keys in the order of their insertion (none of the keys used here
  is an array index: a speaker key starts with \<open>Speaker\<close>, a language key is a language
  code), each with its count. \<open>bump\<close> is \<open>counts[k] = (counts[k] || 0) + 1\<close>.
\<close>

type_synonym counts = "(string \<times> nat) list"

fun bump :: "string \<Rightarrow> counts \<Rightarrow> counts" where
  "bump k [] = [(k, 1)]"
| "bump k ((k', n) # rest) = (if k = k' then (k', n + 1) # rest else (k', n) # bump k rest)"

definition count_of :: "counts \<Rightarrow> string \<Rightarrow> nat" where
  "count_of c k = (case map_of c k of None \<Rightarrow> 0 | Some n \<Rightarrow> n)"

definition object_keys :: "counts \<Rightarrow> string list" where
  "object_keys c = map fst c"

definition pick :: "counts \<Rightarrow> string \<Rightarrow> string \<Rightarrow> string" where
  \<comment> \<open>the reducer \<open>(a, b) => counts[a] > counts[b] ? a : b\<close>\<close>
  "pick c a b = (if count_of c a > count_of c b then a else b)"

fun string_of_nat :: "nat \<Rightarrow> string" where
  "string_of_nat n =
     (if n < 10 then [''0123456789'' ! n]
      else string_of_nat (n div 10) @ [''0123456789'' ! (n mod 10)])"

declare string_of_nat.simps [simp del]

definition speakerId :: "nat \<Rightarrow> string" where
  "speakerId n = ''Speaker '' @ string_of_nat n"

definition count_speakers :: "dg_word list \<Rightarrow> counts" where
  "count_speakers wds =
     foldl (\<lambda>c w. case w_speaker w of None \<Rightarrow> c | Some n \<Rightarrow> bump (speakerId n) c) [] wds"

definition dominant_speaker :: "counts \<Rightarrow> string option" where
  \<comment> \<open>\<open>Object.keys(c).reduce(pick, Object.keys(c)[0])\<close>\<close>
  "dominant_speaker c =
     (case object_keys c of [] \<Rightarrow> None | k0 # ks \<Rightarrow> Some (foldl (pick c) k0 (k0 # ks)))"

definition resolve_speaker :: "alternative \<Rightarrow> string" where
  "resolve_speaker alt =
     (case words alt of
        None \<Rightarrow> ''Unknown Speaker''
      | Some wds \<Rightarrow>
          if length wds > 0
          then (case dominant_speaker (count_speakers wds) of
                  None \<Rightarrow> ''Unknown Speaker''
                | Some d \<Rightarrow> d)
          else ''Unknown Speaker'')"

definition count_languages :: "dg_word list \<Rightarrow> counts" where
  "count_languages wds =
     foldl (\<lambda>c w. case w_language w of
                    None \<Rightarrow> c
                  | Some l \<Rightarrow> if l = [] then c else bump l c) [] wds"

definition dominant_language :: "counts \<Rightarrow> string option" where
  \<comment> \<open>\<open>Object.keys(c).reduce(pick)\<close>, run when there is a key\<close>
  "dominant_language c =
     (case object_keys c of [] \<Rightarrow> None | k0 # ks \<Rightarrow> Some (foldl (pick c) k0 ks))"

definition sequence_language :: "alternative \<Rightarrow> string" where
  \<comment> \<open>\<open>alt.languages[0] || 'en'\<close> when \<open>alt.languages\<close> is an array, else \<open>'en'\<close>\<close>
  "sequence_language alt =
     (case languages alt of
        None \<Rightarrow> ''en''
      | Some [] \<Rightarrow> ''en''
      | Some (l # ls) \<Rightarrow> if l = [] then ''en'' else l)"

definition resolve_language :: "alternative \<Rightarrow> string" where
  "resolve_language alt =
     (case words alt of
        None \<Rightarrow> sequence_language alt
      | Some wds \<Rightarrow>
          if length wds > 0
          then (case dominant_language (count_languages wds) of
                  None \<Rightarrow> sequence_language alt
                | Some d \<Rightarrow> d)
          else sequence_language alt)"

definition resolve_detected :: "alternative \<Rightarrow> string list" where
  "resolve_detected alt = (case languages alt of None \<Rightarrow> [] | Some ls \<Rightarrow> ls)"

definition to_lower :: "char \<Rightarrow> char" where
  "to_lower c =
     (if 65 \<le> (of_char c :: nat) \<and> (of_char c :: nat) \<le> 90
      then char_of ((of_char c :: nat) + 32) else c)"

fun str_includes :: "string \<Rightarrow> string \<Rightarrow> bool" where
  "str_includes [] pat = (pat = [])"
| "str_includes (c # cs) pat = (take (length pat) (c # cs) = pat \<or> str_includes cs pat)"

definition error_text :: "dg_msg \<Rightarrow> string \<Rightarrow> string" where
  \<comment> \<open>\<open>msg.message || msg.reason || msg.type\<close>\<close>
  "error_text msg ty =
     (case msg_message msg of
        Some m \<Rightarrow> if m \<noteq> [] then m
                  else (case msg_reason msg of
                          Some r \<Rightarrow> if r \<noteq> [] then r else ty
                        | None \<Rightarrow> ty)
      | None \<Rightarrow> (case msg_reason msg of
                   Some r \<Rightarrow> if r \<noteq> [] then r else ty
                 | None \<Rightarrow> ty))"

definition ws_onmessage :: "dg_msg option \<Rightarrow> action" where
  "ws_onmessage parsed =
     (case parsed of
        None \<Rightarrow> NoAction  \<comment> \<open>\<open>JSON.parse\<close> raised\<close>
      | Some msg \<Rightarrow>
          (case (if msg_type msg = Some ''Results'' then alternatives msg else []) of
             alt # alts \<Rightarrow>
               (case transcript alt of
                  None \<Rightarrow> NoAction
                | Some t \<Rightarrow>
                    if t = [] then NoAction
                    else PostMessage
                           \<lparr>final = is_final msg, msg_text = t, speaker = resolve_speaker alt,
                            language = resolve_language alt,
                            detectedLanguages = resolve_detected alt,
                            msg_words = words alt\<rparr>)
           | [] \<Rightarrow>
               (case msg_type msg of
                  None \<Rightarrow> NoAction
                | Some ty \<Rightarrow>
                    if ty \<noteq> [] \<and> str_includes (map to_lower ty) ''error''
                    then PostStatus (DeepgramError (error_text msg ty))
                    else NoAction)))"

section \<open>Module state\<close>

text \<open>
  The document keeps its state in module-level variables. The model keeps the ones that the
  audio path and the socket handlers read or write in one record, and records the effects
  that leave the document (status messages, utterances posted to the background page,
  chunks built by the drain loop and chunks given to the socket, sockets constructed) as
  lists that only grow.
\<close>

record offscreen =
  ws :: "ready_state option"          \<comment> \<open>the current socket, by its \<open>readyState\<close>; \<open>None\<close> is no socket\<close>
  keepAliveTimer :: bool              \<comment> \<open>whether an interval timer is held\<close>
  triedOpusFallback :: bool
  currentMode :: mode
  audioContext :: "rat option"        \<comment> \<open>the audio context, by its \<open>sampleRate\<close>; \<open>None\<close> is \<open>null\<close>\<close>
  recording :: bool                   \<comment> \<open>a \<open>MediaRecorder\<close> has been started\<close>
  pcmQueue :: "byte list list"
  pcmBytesPending :: nat
  statuses :: "status list"           \<comment> \<open>effect: every \<open>postStatus\<close>, oldest first\<close>
  chunks :: "byte list list"          \<comment> \<open>effect: every \<open>out\<close> buffer the drain loop built\<close>
  sent :: "byte list list"            \<comment> \<open>effect: every chunk given to \<open>ws.send\<close>\<close>
  sockets :: "mode list"              \<comment> \<open>effect: every \<open>new WebSocket\<close>, by its encoding\<close>
  posted :: "transcript_msg list"     \<comment> \<open>effect: every \<open>bgPort.postMessage\<close>\<close>

definition PCM_TARGET_CHUNK_BYTES :: nat where
  "PCM_TARGET_CHUNK_BYTES = 3200"

definition TARGET_SAMPLE_RATE :: rat where
  "TARGET_SAMPLE_RATE = 16000"

text \<open>The values of the module's variables when the script has been loaded.\<close>

definition offscreen_init :: offscreen where
  "offscreen_init =
     \<lparr>ws = None, keepAliveTimer = False, triedOpusFallback = False, currentMode = PCM,
      audioContext = None, recording = False, pcmQueue = [], pcmBytesPending = 0,
      statuses = [], chunks = [], sent = [], sockets = [], posted = []\<rparr>"

definition ws_is_open :: "offscreen \<Rightarrow> bool" where
  \<comment> \<open>\<open>ws && ws.readyState === WebSocket.OPEN\<close>\<close>
  "ws_is_open s = (ws s = Some OPEN_STATE)"

definition postStatus :: "status \<Rightarrow> offscreen \<Rightarrow> offscreen" where
  "postStatus text s = s\<lparr>statuses := statuses s @ [text]\<rparr>"

section \<open>The chunker: \<open>enqueuePcm\<close>\<close>

text \<open>
  \<open>out.set(src, offset)\<close> on a \<open>Uint8Array\<close>: the bytes of \<open>src\<close> replace those of
  \<open>out\<close> from \<open>offset\<close> on. The source only calls it with
  \<open>offset + length src \<le> length out\<close>, where it cannot raise.
\<close>

definition uint8_set :: "byte list \<Rightarrow> byte list \<Rightarrow> nat \<Rightarrow> byte list" where
  "uint8_set out src offset = take offset out @ src @ drop (offset + length src) out"

text \<open>
  The inner loop of \<open>enqueuePcm\<close> (\<open>while (toSend > 0 && pcmQueue.length)\<close>): it copies
  from the head of the queue into \<open>out\<close>, replaces a head that is longer than what is
  still needed by its remainder and shifts a head that has been used up. It returns \<open>out\<close>
  and the queue.
\<close>

fun fill_chunk :: "nat \<Rightarrow> byte list \<Rightarrow> nat \<Rightarrow> byte list list \<Rightarrow> byte list \<times> byte list list" where
  "fill_chunk toSend out offset [] = (out, [])"
| "fill_chunk toSend out offset (head # rest) =
     (if toSend > 0 then
        (if min toSend (length head) < length head
         then fill_chunk (toSend - min toSend (length head))
                (uint8_set out (take (min toSend (length head)) head) offset)
                (offset + min toSend (length head))
                (drop (min toSend (length head)) head # rest)
         else fill_chunk (toSend - min toSend (length head))
                (uint8_set out (take (min toSend (length head)) head) offset)
                (offset + min toSend (length head))
                rest)
      else (out, head # rest))"

text \<open>
  One iteration of the outer loop, in its two halves: the inner loop has run and the queue
  is updated (\<open>drain_fill\<close>, the state before line 324), then the counter is decremented
  and the chunk is logged and given to the socket when that is open (\<open>drain_send\<close>).
\<close>

definition new_chunk :: "offscreen \<Rightarrow> byte list" where
  "new_chunk s =
     fst (fill_chunk PCM_TARGET_CHUNK_BYTES (replicate PCM_TARGET_CHUNK_BYTES 0) 0 (pcmQueue s))"

definition drain_fill :: "offscreen \<Rightarrow> offscreen" where
  "drain_fill s =
     s\<lparr>pcmQueue :=
         snd (fill_chunk PCM_TARGET_CHUNK_BYTES (replicate PCM_TARGET_CHUNK_BYTES 0) 0 (pcmQueue s))\<rparr>"

definition drain_send :: "byte list \<Rightarrow> offscreen \<Rightarrow> offscreen" where
  "drain_send out s =
     (let s1 = s\<lparr>pcmBytesPending := pcmBytesPending s - PCM_TARGET_CHUNK_BYTES,
                  chunks := chunks s @ [out]\<rparr>
      in if ws_is_open s1 then s1\<lparr>sent := sent s1 @ [out]\<rparr> else s1)"

definition drain_step :: "offscreen \<Rightarrow> offscreen" where
  "drain_step s = drain_send (new_chunk s) (drain_fill s)"

function drain :: "offscreen \<Rightarrow> offscreen" where
  "drain s = (if pcmBytesPending s \<ge> PCM_TARGET_CHUNK_BYTES then drain (drain_step s) else s)"
  by pat_completeness auto
termination
  by (relation "measure pcmBytesPending")
     (auto simp: drain_step_def drain_send_def drain_fill_def PCM_TARGET_CHUNK_BYTES_def Let_def)

declare drain.simps [simp del]

definition push_pcm :: "byte list \<Rightarrow> offscreen \<Rightarrow> offscreen" where
  \<comment> \<open>lines 305 and 306\<close>
  "push_pcm arrayBuffer s =
     s\<lparr>pcmQueue := pcmQueue s @ [arrayBuffer],
       pcmBytesPending := pcmBytesPending s + length arrayBuffer\<rparr>"

definition enqueuePcm :: "byte list \<Rightarrow> offscreen \<Rightarrow> offscreen" where
  "enqueuePcm arrayBuffer s = drain (push_pcm arrayBuffer s)"

text \<open>
  A sequence of calls. Each call finds the socket in the state the environment has put it
  in by then, so a call is a pair of that state and the byte range.
\<close>

definition feed :: "(ready_state option \<times> byte list) list \<Rightarrow> offscreen \<Rightarrow> offscreen" where
  "feed calls s = foldl (\<lambda>s call. enqueuePcm (snd call) (s\<lparr>ws := fst call\<rparr>)) s calls"

definition queued_bytes :: "offscreen \<Rightarrow> nat" where
  \<comment> \<open>the sum of the byte lengths of the buffers in \<open>pcmQueue\<close>\<close>
  "queued_bytes s = sum_list (map length (pcmQueue s))"

text \<open>The counter agrees with the queue.\<close>

definition consistent :: "offscreen \<Rightarrow> bool" where
  "consistent s = (pcmBytesPending s = queued_bytes s)"

section \<open>The resampler: \<open>downsampleBuffer\<close>\<close>

datatype error =
    PreconditionError   \<comment> \<open>\<open>Error('Downsampling rate should be smaller than original')\<close>\<close>
  | RangeError          \<comment> \<open>\<open>new Float32Array\<close> of a negative length\<close>

definition js_round :: "rat \<Rightarrow> int" where
  \<comment> \<open>\<open>Math.round\<close>: the nearest integer, a tie going up\<close>
  "js_round x = \<lfloor>x + 1 / 2\<rfloor>"

text \<open>
  The \<open>for\<close> loop of lines 282 to 285. It returns \<open>accum\<close> and \<open>count\<close>. The index is
  never negative where the loop runs (the offsets are roundings of non-negative numbers).
\<close>

function sum_window :: "rat list \<Rightarrow> int \<Rightarrow> int \<Rightarrow> rat \<Rightarrow> nat \<Rightarrow> rat \<times> nat" where
  "sum_window buffer nextOffsetBuffer i accum count =
     (if i < nextOffsetBuffer \<and> i < int (length buffer)
      then sum_window buffer nextOffsetBuffer (i + 1) (accum + buffer ! nat i) (count + 1)
      else (accum, count))"
  by pat_completeness auto
termination
  by (relation "measure (\<lambda>(buffer, nextOffsetBuffer, i, accum, count). nat (nextOffsetBuffer - i))")
     auto

declare sum_window.simps [simp del]

text \<open>The \<open>while\<close> loop of lines 279 to 289.\<close>

function downsample_loop :: "rat list \<Rightarrow> rat \<Rightarrow> rat list \<Rightarrow> nat \<Rightarrow> int \<Rightarrow> rat list" where
  "downsample_loop buffer sampleRateRatio result offsetResult offsetBuffer =
     (if offsetResult < length result
      then downsample_loop buffer sampleRateRatio
             (result[offsetResult :=
                fst (sum_window buffer (js_round (of_nat (offsetResult + 1) * sampleRateRatio))
                       offsetBuffer 0 0)
                / (if snd (sum_window buffer (js_round (of_nat (offsetResult + 1) * sampleRateRatio))
                             offsetBuffer 0 0) = 0
                   then 1
                   else of_nat (snd (sum_window buffer
                          (js_round (of_nat (offsetResult + 1) * sampleRateRatio)) offsetBuffer 0 0)))])
             (offsetResult + 1)
             (js_round (of_nat (offsetResult + 1) * sampleRateRatio))
      else result)"
  by pat_completeness auto
termination
  by (relation "measure (\<lambda>(buffer, sampleRateRatio, result, offsetResult, offsetBuffer).
                  length result - offsetResult)")
     auto

declare downsample_loop.simps [simp del]

text \<open>
  The two divisions by zero of the source are written out, since their quotients are not
  rationals. With \<open>outSampleRate = 0\<close> (below \<open>sampleRate\<close>) the ratio is \<open>+Infinity\<close>,
  the new length is \<open>Math.round\<close> of 0 and the result is empty. With \<open>sampleRate = 0\<close>
  (above \<open>outSampleRate\<close>) the ratio is \<open>-0\<close>; the new length of a non-empty buffer is
  \<open>-Infinity\<close>, which \<open>new Float32Array\<close> refuses, and that of an empty buffer is \<open>NaN\<close>,
  which it takes for 0.
\<close>

definition downsampleBuffer :: "rat list \<Rightarrow> rat \<Rightarrow> rat \<Rightarrow> error + rat list" where
  "downsampleBuffer buffer sampleRate outSampleRate =
     (if outSampleRate = sampleRate then Inr buffer
      else if outSampleRate > sampleRate then Inl PreconditionError
      else if outSampleRate = 0 then Inr []
      else if sampleRate = 0 then (if buffer = [] then Inr [] else Inl RangeError)
      else (let sampleRateRatio = sampleRate / outSampleRate;
                newLength = js_round (of_nat (length buffer) / sampleRateRatio)
            in if newLength < 0 then Inl RangeError
               else Inr (downsample_loop buffer sampleRateRatio
                           (replicate (nat newLength) 0) 0 0)))"



section \<open>The sample conversion: \<open>floatTo16BitPCM\<close>\<close>

text \<open>
  The samples come from a \<open>Float32Array\<close>. For a finite sample the clamping and the
  product with 32768 or 32767 are exact in double arithmetic (24 and 15 significant bits),
  so the rational model computes what the source computes.
\<close>

definition to_int16 :: "rat \<Rightarrow> 16 word" where
  \<comment> \<open>the conversion \<open>DataView.setInt16\<close> applies to its number: the fraction is dropped
      (towards zero) and the integer is taken modulo \<open>2 ^ 16\<close>\<close>
  "to_int16 v = word_of_int (if v < 0 then - \<lfloor>- v\<rfloor> else \<lfloor>v\<rfloor>)"

definition setInt16 :: "byte list \<Rightarrow> nat \<Rightarrow> rat \<Rightarrow> byte list" where
  \<comment> \<open>\<open>view.setInt16(offset, v, true)\<close>: low byte first\<close>
  "setInt16 view offset v =
     view[offset := ucast (to_int16 v), offset + 1 := ucast (drop_bit 8 (to_int16 v))]"

function floatTo16_loop :: "rat list \<Rightarrow> byte list \<Rightarrow> nat \<Rightarrow> nat \<Rightarrow> byte list" where
  "floatTo16_loop float32Array view i offset =
     (if i < length float32Array
      then floatTo16_loop float32Array
             (setInt16 view offset
                (if max (- 1) (min 1 (float32Array ! i)) < 0
                 then max (- 1) (min 1 (float32Array ! i)) * 32768
                 else max (- 1) (min 1 (float32Array ! i)) * 32767))
             (i + 1) (offset + 2)
      else view)"
  by pat_completeness auto
termination
  by (relation "measure (\<lambda>(float32Array, view, i, offset). length float32Array - i)") auto

declare floatTo16_loop.simps [simp del]

definition floatTo16BitPCM :: "rat list \<Rightarrow> byte list" where
  "floatTo16BitPCM float32Array =
     floatTo16_loop float32Array (replicate (length float32Array * 2) 0) 0 0"

text \<open>
  Reading a signed 16-bit little-endian integer back from a byte buffer
  (\<open>DataView.getInt16(offset, true)\<close>), and the spec's words for the value of a sample.
\<close>

definition int16_le :: "byte list \<Rightarrow> nat \<Rightarrow> int" where
  "int16_le view offset = sint (word_cat (view ! (offset + 1)) (view ! offset) :: 16 word)"

definition clamp_unit :: "rat \<Rightarrow> rat" where
  "clamp_unit x = (if x < - 1 then - 1 else if 1 < x then 1 else x)"

definition scale_sample :: "rat \<Rightarrow> rat" where
  "scale_sample s = (if s < 0 then s * 32768 else s * 32767)"

definition truncate_rat :: "rat \<Rightarrow> int" where
  "truncate_rat v = (if v < 0 then \<lceil>v\<rceil> else \<lfloor>v\<rfloor>)"

section \<open>The worklet's message handler\<close>

definition worklet_onmessage :: "rat list option \<Rightarrow> offscreen \<Rightarrow> offscreen" where
  "worklet_onmessage input s =
     (case input of
        None \<Rightarrow> s
      | Some samples \<Rightarrow>
          if \<not> ws_is_open s then s
          else if currentMode s \<noteq> PCM then s
          else (case audioContext s of
                  None \<Rightarrow> s  \<comment> \<open>reading \<open>sampleRate\<close> of \<open>null\<close> raises\<close>
                | Some rate \<Rightarrow>
                    (case downsampleBuffer samples rate TARGET_SAMPLE_RATE of
                       Inl e \<Rightarrow> s  \<comment> \<open>the exception leaves the handler; nothing was changed\<close>
                     | Inr down \<Rightarrow> enqueuePcm (floatTo16BitPCM down) s)))"

section \<open>The socket: connecting, the handlers, the fallback\<close>

text \<open>
  \<open>new WebSocket\<close> yields a socket that is connecting; the module variable \<open>ws\<close> then
  names it. What the browser does with the opus recorder inside \<open>startOpusFallback\<close> is
  the environment's choice.
\<close>

datatype recorder_env =
    Unsupported       \<comment> \<open>\<open>MediaRecorder.isTypeSupported(mimeType)\<close> is false\<close>
  | RecorderThrows    \<comment> \<open>constructing or starting the recorder raises\<close>
  | RecorderStarts

definition openDeepgramPCM :: "offscreen \<Rightarrow> offscreen" where
  "openDeepgramPCM s = s\<lparr>ws := Some CONNECTING, sockets := sockets s @ [PCM], currentMode := PCM\<rparr>"

definition startOpusFallback :: "recorder_env \<Rightarrow> offscreen \<Rightarrow> offscreen" where
  "startOpusFallback renv s =
     (let s1 = s\<lparr>ws := Some CONNECTING, sockets := sockets s @ [OPUS], currentMode := OPUS\<rparr>
      in case renv of
           Unsupported \<Rightarrow> postStatus OpusUnsupported s1
         | RecorderThrows \<Rightarrow> s1  \<comment> \<open>caught by the \<open>try\<close> around the call\<close>
         | RecorderStarts \<Rightarrow> s1\<lparr>recording := True\<rparr>)"

definition ws_onopen :: "offscreen \<Rightarrow> offscreen" where
  "ws_onopen s = (postStatus Connected s)\<lparr>keepAliveTimer := True\<rparr>"

definition ws_onerror :: "offscreen \<Rightarrow> offscreen" where
  "ws_onerror s = postStatus SocketError s"

definition ws_onclose :: "nat \<Rightarrow> string \<Rightarrow> recorder_env \<Rightarrow> offscreen \<Rightarrow> offscreen" where
  "ws_onclose code reason renv s =
     (let s1 = postStatus (SocketClosed code reason) (s\<lparr>keepAliveTimer := False\<rparr>)
      in if currentMode s1 = PCM \<and> \<not> triedOpusFallback s1
         then startOpusFallback renv (s1\<lparr>triedOpusFallback := True\<rparr>)
         else s1)"

definition stopAll :: "offscreen \<Rightarrow> offscreen" where
  "stopAll s =
     s\<lparr>audioContext := None, ws := None, keepAliveTimer := False, recording := False\<rparr>"

definition setupAudioPipeline :: "rat \<Rightarrow> offscreen \<Rightarrow> offscreen" where
  \<comment> \<open>\<open>if (!audioContext) audioContext = new AudioContext()\<close>, the new context running
      at the given rate\<close>
  "setupAudioPipeline rate s =
     (case audioContext s of None \<Rightarrow> s\<lparr>audioContext := Some rate\<rparr> | Some r \<Rightarrow> s)"

definition ws_message :: "dg_msg option \<Rightarrow> offscreen \<Rightarrow> offscreen" where
  \<comment> \<open>the effect of \<open>ws.onmessage\<close> on the document\<close>
  "ws_message parsed s =
     (case ws_onmessage parsed of
        NoAction \<Rightarrow> s
      | PostMessage m \<Rightarrow> s\<lparr>posted := posted s @ [m]\<rparr>
      | PostStatus st \<Rightarrow> postStatus st s)"

text \<open>
  What can happen to the document during its life. A capture is started and gets as far as
  connecting (\<open>Start\<close>, with the rate a new audio context would run at), or fails on the
  way (\<open>StartFailed\<close>: the rate of a context it still set up, if it got that far, whether
  the capture prompt was dismissed, and the message of the error); a capture is stopped; the
  environment moves the current socket to another ready state; a handler of a socket fires;
  the worklet delivers a block. The keep-alive tick and the data callback of the opus
  recorder only send to an open socket and touch none of the variables modelled.
\<close>

datatype event =
    Start rat
  | StartFailed "rat option" bool string
  | Stop
  | ReadyState ready_state
  | WsOpen
  | WsMessage "dg_msg option"
  | WsError
  | WsClose nat string recorder_env
  | Audio "rat list option"

fun step :: "event \<Rightarrow> offscreen \<Rightarrow> offscreen" where
  "step (Start rate) s = openDeepgramPCM (setupAudioPipeline rate s)"
| "step (StartFailed ctx dismissed message) s =
     postStatus (StartError message)
       ((if dismissed then postStatus AllowPrompt else id)
          (case ctx of None \<Rightarrow> s | Some rate \<Rightarrow> setupAudioPipeline rate s))"
| "step Stop s = stopAll s"
| "step (ReadyState r) s = (case ws s of None \<Rightarrow> s | Some r0 \<Rightarrow> s\<lparr>ws := Some r\<rparr>)"
| "step WsOpen s = ws_onopen s"
| "step (WsMessage parsed) s = ws_message parsed s"
| "step WsError s = ws_onerror s"
| "step (WsClose code reason renv) s = ws_onclose code reason renv s"
| "step (Audio input) s = worklet_onmessage input s"

definition run :: "event list \<Rightarrow> offscreen \<Rightarrow> offscreen" where
  "run evs s = foldl (\<lambda>s ev. step ev s) s evs"

definition fallbacks :: "offscreen \<Rightarrow> nat" where
  \<comment> \<open>how many sockets were opened in opus mode\<close>
  "fallbacks s = length (filter (\<lambda>m. m = OPUS) (sockets s))"

text \<open>The document without its socket and without the record of what was sent.\<close>

definition forget_socket :: "offscreen \<Rightarrow> offscreen" where
  "forget_socket s = s\<lparr>ws := None, sent := []\<rparr>"

section \<open>The reconciler in the spec's words\<close>

text \<open>
  The speaker keys and the language tags of an event's words, in word order; the distinct
  tags in the order in which they are first met; how often a tag occurs is \<open>count_list\<close>.
\<close>

definition speaker_tags :: "alternative \<Rightarrow> string list" where
  "speaker_tags alt =
     (case words alt of
        None \<Rightarrow> []
      | Some wds \<Rightarrow> map speakerId (List.map_filter w_speaker wds))"

definition language_tags :: "alternative \<Rightarrow> string list" where
  "language_tags alt =
     (case words alt of
        None \<Rightarrow> []
      | Some wds \<Rightarrow> filter (\<lambda>l. l \<noteq> []) (List.map_filter w_language wds))"

fun first_seen :: "string list \<Rightarrow> string list" where
  "first_seen [] = []"
| "first_seen (x # xs) = x # filter (\<lambda>y. y \<noteq> x) (first_seen xs)"

text \<open>Events of the spec's examples.\<close>

definition tagged :: "nat option \<Rightarrow> string option \<Rightarrow> dg_word" where
  "tagged sp lang = \<lparr>w_speaker = sp, w_language = lang\<rparr>"

definition example_event :: "dg_word list option \<Rightarrow> string list option \<Rightarrow> alternative" where
  "example_event wds langs = \<lparr>transcript = Some ''hola'', words = wds, languages = langs\<rparr>"

section \<open>The chunker: proofs\<close>

lemma fill_chunk_zero [simp]: "fill_chunk 0 out offset q = (out, q)"
  by (cases q) simp_all





lemma fill_chunk_snd:
  "concat (snd (fill_chunk toSend out offset q)) = drop toSend (concat q)"
  by (induction toSend out offset q rule: fill_chunk.induct) (auto simp: min_def)

lemma queued_bytes_concat: "queued_bytes s = length (concat (pcmQueue s))"
  by (simp add: queued_bytes_def length_concat)


lemma drain_fill_queue:
  "concat (pcmQueue (drain_fill s)) = drop PCM_TARGET_CHUNK_BYTES (concat (pcmQueue s))"
  by (simp add: drain_fill_def fill_chunk_snd)

lemma drain_step_fields:
  "pcmQueue (drain_step s) = pcmQueue (drain_fill s)"
  "pcmBytesPending (drain_step s) = pcmBytesPending s - PCM_TARGET_CHUNK_BYTES"
  "chunks (drain_step s) = chunks s @ [new_chunk s]"
  "statuses (drain_step s) = statuses s"
  "ws (drain_step s) = ws s"
  by (simp_all add: drain_step_def drain_send_def drain_fill_def Let_def)

lemma drain_step_consistent:
  "consistent s \<Longrightarrow> PCM_TARGET_CHUNK_BYTES \<le> pcmBytesPending s \<Longrightarrow> consistent (drain_step s)"
  by (simp add: consistent_def drain_step_fields queued_bytes_concat drain_fill_queue)



lemma drain_consistent: "consistent s \<Longrightarrow> consistent (drain s)"
proof (induction s rule: drain.induct)
  case (1 s)
  show ?case
  proof (cases "PCM_TARGET_CHUNK_BYTES \<le> pcmBytesPending s")
    case True
    with 1 show ?thesis by (simp add: drain_step_consistent drain.simps[of s])
  next
    case False
    with 1 show ?thesis by (simp add: drain.simps[of s])
  qed
qed

lemma drain_below: "pcmBytesPending (drain s) < PCM_TARGET_CHUNK_BYTES"
proof (induction s rule: drain.induct)
  case (1 s)
  then show ?case
    by (cases "PCM_TARGET_CHUNK_BYTES \<le> pcmBytesPending s") (simp_all add: drain.simps[of s])
qed




lemma push_pcm_consistent: "consistent s \<Longrightarrow> consistent (push_pcm buf s)"
  by (simp add: consistent_def push_pcm_def queued_bytes_def)

lemma enqueuePcm_consistent: "consistent s \<Longrightarrow> consistent (enqueuePcm buf s)"
  by (simp add: enqueuePcm_def drain_consistent push_pcm_consistent)

lemma enqueuePcm_below: "pcmBytesPending (enqueuePcm buf s) < PCM_TARGET_CHUNK_BYTES"
  by (simp add: enqueuePcm_def drain_below)



lemma consistent_ws [simp]: "consistent (s\<lparr>ws := w\<rparr>) = consistent s"
  by (simp add: consistent_def queued_bytes_def)

lemma feed_snoc:
  "feed (calls @ [c]) s = enqueuePcm (snd c) ((feed calls s)\<lparr>ws := fst c\<rparr>)"
  by (simp add: feed_def)

lemma feed_nil [simp]: "feed [] s = s"
  by (simp add: feed_def)

lemma feed_consistent: "consistent s \<Longrightarrow> consistent (feed calls s)"
  by (induction calls rule: rev_induct) (simp_all add: feed_snoc enqueuePcm_consistent)

lemma feed_below:
  "pcmBytesPending s < PCM_TARGET_CHUNK_BYTES \<Longrightarrow>
   pcmBytesPending (feed calls s) < PCM_TARGET_CHUNK_BYTES"
  by (induction calls rule: rev_induct) (simp_all add: feed_snoc enqueuePcm_below)



lemma init_consistent: "consistent offscreen_init"
  by (simp add: consistent_def offscreen_init_def queued_bytes_def)





text \<open>
  While the socket is open the drain loop gives it every chunk it builds: over calls that all
  find the socket open, what was sent is what was built.
\<close>

lemma drain_open_sent:
  "ws_is_open s \<Longrightarrow> sent s = chunks s \<Longrightarrow> sent (drain s) = chunks (drain s)"
proof (induction s rule: drain.induct)
  case (1 s)
  show ?case
  proof (cases "PCM_TARGET_CHUNK_BYTES \<le> pcmBytesPending s")
    case True
    have "ws_is_open (drain_step s)" "sent (drain_step s) = chunks (drain_step s)"
      using 1(2,3)
      by (simp_all add: drain_step_def drain_send_def drain_fill_def ws_is_open_def Let_def)
    with 1(1)[OF True] True show ?thesis
      by (simp add: drain.simps[of s])
  next
    case False
    with 1(3) show ?thesis by (simp add: drain.simps[of s])
  qed
qed

lemma open_feed_sends_every_chunk:
  "list_all (\<lambda>call. fst call = Some OPEN_STATE) calls \<Longrightarrow>
   sent (feed calls offscreen_init) = chunks (feed calls offscreen_init)"
proof (induction calls rule: rev_induct)
  case Nil
  then show ?case by (simp add: offscreen_init_def)
next
  case (snoc c calls)
  let ?s = "(feed calls offscreen_init)\<lparr>ws := fst c\<rparr>"
  have "ws_is_open (push_pcm (snd c) ?s)" "sent (push_pcm (snd c) ?s) = chunks (push_pcm (snd c) ?s)"
    using snoc by (simp_all add: push_pcm_def ws_is_open_def)
  then show ?case
    by (simp add: feed_snoc enqueuePcm_def drain_open_sent)
qed

lemma worklet_consistent: "consistent s \<Longrightarrow> consistent (worklet_onmessage input s)"
  by (auto simp: worklet_onmessage_def enqueuePcm_consistent split: option.splits sum.splits)

lemma worklet_below:
  "pcmBytesPending s < PCM_TARGET_CHUNK_BYTES \<Longrightarrow>
   pcmBytesPending (worklet_onmessage input s) < PCM_TARGET_CHUNK_BYTES"
  by (auto simp: worklet_onmessage_def enqueuePcm_below split: option.splits sum.splits)

lemma step_consistent: "consistent s \<Longrightarrow> consistent (step ev s)"
  by (cases ev)
     (auto simp: consistent_def queued_bytes_def openDeepgramPCM_def stopAll_def ws_onopen_def
        ws_onerror_def ws_onclose_def startOpusFallback_def postStatus_def Let_def
        setupAudioPipeline_def ws_message_def
        worklet_consistent[unfolded consistent_def queued_bytes_def]
        split: option.splits recorder_env.splits action.splits)

lemma step_below:
  "pcmBytesPending s < PCM_TARGET_CHUNK_BYTES \<Longrightarrow>
   pcmBytesPending (step ev s) < PCM_TARGET_CHUNK_BYTES"
  by (cases ev)
     (auto simp: openDeepgramPCM_def stopAll_def ws_onopen_def
        ws_onerror_def ws_onclose_def startOpusFallback_def postStatus_def Let_def
        setupAudioPipeline_def ws_message_def
        worklet_below split: option.splits recorder_env.splits action.splits)

lemma run_snoc: "run (evs @ [ev]) s = step ev (run evs s)"
  by (simp add: run_def)

lemma run_nil [simp]: "run [] s = s"
  by (simp add: run_def)

lemma run_consistent: "consistent s \<Longrightarrow> consistent (run evs s)"
  by (induction evs rule: rev_induct) (simp_all add: run_snoc step_consistent)

lemma run_below:
  "pcmBytesPending s < PCM_TARGET_CHUNK_BYTES \<Longrightarrow>
   pcmBytesPending (run evs s) < PCM_TARGET_CHUNK_BYTES"
  by (induction evs rule: rev_induct) (simp_all add: run_snoc step_below)

lemma drain_fill_lag:
  "consistent s \<Longrightarrow> PCM_TARGET_CHUNK_BYTES \<le> pcmBytesPending s \<Longrightarrow>
   pcmBytesPending (drain_fill s) = queued_bytes (drain_fill s) + PCM_TARGET_CHUNK_BYTES"
  by (simp add: consistent_def queued_bytes_concat drain_fill_queue) (simp add: drain_fill_def)

text \<open>
  Claim C9, as stated, at a point inside the drain loop. A buffer of 3200 bytes is enqueued
  in the freshly loaded document. When the inner loop has moved its bytes to the chunk
  (line 323) and the counter has not yet been decremented (line 324), the queue is empty and
  the counter still reads 3200: the two are not equal at every point.
\<close>

theorem counter_lags_queue_mid_drain:
  "pcmBytesPending (drain_fill (push_pcm (replicate 3200 0) offscreen_init)) = 3200 \<and>
   queued_bytes (drain_fill (push_pcm (replicate 3200 0) offscreen_init)) = 0 \<and>
   pcmBytesPending (drain_fill (push_pcm (replicate 3200 0) offscreen_init)) \<noteq>
   queued_bytes (drain_fill (push_pcm (replicate 3200 0) offscreen_init))"
proof -
  let ?s = "push_pcm (replicate 3200 0) offscreen_init"
  have p: "pcmBytesPending (drain_fill ?s) = 3200"
    by (simp add: drain_fill_def push_pcm_def offscreen_init_def)
  have "concat (pcmQueue ?s) = replicate 3200 0"
    by (simp add: push_pcm_def offscreen_init_def)
  then have q: "queued_bytes (drain_fill ?s) = 0"
    by (simp add: queued_bytes_concat drain_fill_queue PCM_TARGET_CHUNK_BYTES_def)
  from p q show ?thesis by simp
qed

text \<open>
  Claim C9, amended. After every call of \<open>enqueuePcm\<close> has returned, and after every
  event of the document's life, the counter is below the chunk size and equals the sum of
  the byte lengths of the queued buffers. Within a call the equality holds once the buffer
  has been pushed and counted and again after each completed iteration of the drain loop;
  inside an iteration, between the inner loop and the decrement, the counter is ahead of the
  queue by exactly one chunk.
\<close>

theorem pending_counter_invariant:
  "pcmBytesPending (feed calls offscreen_init) < PCM_TARGET_CHUNK_BYTES \<and>
   pcmBytesPending (feed calls offscreen_init) = queued_bytes (feed calls offscreen_init) \<and>
   pcmBytesPending (run evs offscreen_init) < PCM_TARGET_CHUNK_BYTES \<and>
   pcmBytesPending (run evs offscreen_init) = queued_bytes (run evs offscreen_init) \<and>
   (pcmBytesPending s = queued_bytes s \<longrightarrow>
      pcmBytesPending (push_pcm buf s) = queued_bytes (push_pcm buf s) \<and>
      (PCM_TARGET_CHUNK_BYTES \<le> pcmBytesPending s \<longrightarrow>
         pcmBytesPending (drain_fill s) = queued_bytes (drain_fill s) + PCM_TARGET_CHUNK_BYTES \<and>
         pcmBytesPending (drain_step s) = queued_bytes (drain_step s)))"
proof -
  have b0: "pcmBytesPending offscreen_init < PCM_TARGET_CHUNK_BYTES"
    by (simp add: offscreen_init_def PCM_TARGET_CHUNK_BYTES_def)
  have f1: "pcmBytesPending (feed calls offscreen_init) < PCM_TARGET_CHUNK_BYTES"
    by (rule feed_below[OF b0])
  have f2: "pcmBytesPending (feed calls offscreen_init) =
      queued_bytes (feed calls offscreen_init)"
    using feed_consistent[OF init_consistent] by (simp add: consistent_def)
  have r1: "pcmBytesPending (run evs offscreen_init) < PCM_TARGET_CHUNK_BYTES"
    by (rule run_below[OF b0])
  have r2: "pcmBytesPending (run evs offscreen_init) =
      queued_bytes (run evs offscreen_init)"
    using run_consistent[OF init_consistent] by (simp add: consistent_def)
  have p: "pcmBytesPending (push_pcm buf s) = queued_bytes (push_pcm buf s)"
    if "pcmBytesPending s = queued_bytes s"
    using push_pcm_consistent[of s buf] that by (simp add: consistent_def)
  have m: "pcmBytesPending (drain_fill s) = queued_bytes (drain_fill s) + PCM_TARGET_CHUNK_BYTES"
    if "pcmBytesPending s = queued_bytes s" "PCM_TARGET_CHUNK_BYTES \<le> pcmBytesPending s"
    using drain_fill_lag[of s] that by (simp add: consistent_def)
  have d: "pcmBytesPending (drain_step s) = queued_bytes (drain_step s)"
    if "pcmBytesPending s = queued_bytes s" "PCM_TARGET_CHUNK_BYTES \<le> pcmBytesPending s"
    using drain_step_consistent[of s] that by (simp add: consistent_def)
  show ?thesis
    using f1 f2 r1 r2 p m d by blast
qed

theorem pending_counter_invariant_witness:
  "pcmBytesPending (push_pcm (replicate 3200 0) offscreen_init) =
     queued_bytes (push_pcm (replicate 3200 0) offscreen_init) \<and>
   PCM_TARGET_CHUNK_BYTES \<le> pcmBytesPending (push_pcm (replicate 3200 0) offscreen_init) \<and>
   pcmBytesPending (drain_step (push_pcm (replicate 3200 0) offscreen_init)) =
     queued_bytes (drain_step (push_pcm (replicate 3200 0) offscreen_init)) \<and>
   pcmBytesPending (enqueuePcm (replicate 3200 0) offscreen_init) = 0"
proof -
  let ?s = "push_pcm (replicate 3200 0) offscreen_init"
  have a: "pcmBytesPending ?s = queued_bytes ?s"
    by (simp add: push_pcm_def offscreen_init_def queued_bytes_def)
  have b: "PCM_TARGET_CHUNK_BYTES \<le> pcmBytesPending ?s"
    by (simp add: push_pcm_def offscreen_init_def PCM_TARGET_CHUNK_BYTES_def)
  have c: "pcmBytesPending (drain_step ?s) = 0"
    by (simp add: drain_step_fields push_pcm_def offscreen_init_def PCM_TARGET_CHUNK_BYTES_def)
  have d: "enqueuePcm (replicate 3200 0) offscreen_init = drain_step ?s"
    using b c by (simp add: enqueuePcm_def drain.simps[of ?s] drain.simps[of "drain_step ?s"]
        PCM_TARGET_CHUNK_BYTES_def)
  from pending_counter_invariant[of "[]" "[]" ?s "[]"] a b c d show ?thesis by simp
qed

lemma forget_drain_step: "forget_socket (drain_step s) = drain_step (forget_socket s)"
  by (simp add: forget_socket_def drain_step_def drain_send_def drain_fill_def new_chunk_def
      ws_is_open_def Let_def)

lemma forget_drain: "forget_socket (drain s) = drain (forget_socket s)"
proof (induction s rule: drain.induct)
  case (1 s)
  have pend: "pcmBytesPending (forget_socket s) = pcmBytesPending s"
    by (simp add: forget_socket_def)
  show ?case
  proof (cases "PCM_TARGET_CHUNK_BYTES \<le> pcmBytesPending s")
    case True
    then show ?thesis
      using 1 by (simp add: drain.simps[of s] drain.simps[of "forget_socket s"] pend
          forget_drain_step)
  next
    case False
    then show ?thesis
      by (simp add: drain.simps[of s] drain.simps[of "forget_socket s"] pend)
  qed
qed

lemma drain_step_closed:
  "\<not> ws_is_open s \<Longrightarrow> sent (drain_step s) = sent s \<and> \<not> ws_is_open (drain_step s)"
  by (simp add: drain_step_def drain_send_def drain_fill_def ws_is_open_def Let_def)

lemma drain_ws: "ws (drain s) = ws s"
proof (induction s rule: drain.induct)
  case (1 s)
  then show ?case
    by (cases "PCM_TARGET_CHUNK_BYTES \<le> pcmBytesPending s")
       (simp_all add: drain.simps[of s] drain_step_fields)
qed

lemma drain_statuses: "statuses (drain s) = statuses s"
proof (induction s rule: drain.induct)
  case (1 s)
  then show ?case
    by (cases "PCM_TARGET_CHUNK_BYTES \<le> pcmBytesPending s")
       (simp_all add: drain.simps[of s] drain_step_fields)
qed

lemma drain_closed_sent: "\<not> ws_is_open s \<Longrightarrow> sent (drain s) = sent s"
proof (induction s rule: drain.induct)
  case (1 s)
  then show ?case
    by (cases "PCM_TARGET_CHUNK_BYTES \<le> pcmBytesPending s")
       (simp_all add: drain.simps[of s] drain_step_closed)
qed

lemma unforget: "(forget_socket t)\<lparr>ws := ws t, sent := sent t\<rparr> = t"
  by (simp add: forget_socket_def)

lemma enqueuePcm_closed:
  assumes "\<not> ws_is_open s"
  shows "enqueuePcm buf s = (enqueuePcm buf (s\<lparr>ws := Some OPEN_STATE\<rparr>))\<lparr>ws := ws s, sent := sent s\<rparr>"
proof -
  let ?p = "push_pcm buf s"
  let ?o = "push_pcm buf (s\<lparr>ws := Some OPEN_STATE\<rparr>)"
  have closed: "\<not> ws_is_open ?p"
    using assms by (simp add: push_pcm_def ws_is_open_def)
  have same: "forget_socket ?o = forget_socket ?p"
    by (simp add: forget_socket_def push_pcm_def)
  have "drain ?p = (forget_socket (drain ?p))\<lparr>ws := ws (drain ?p), sent := sent (drain ?p)\<rparr>"
    by (simp add: unforget)
  also have "\<dots> = (forget_socket (drain ?p))\<lparr>ws := ws s, sent := sent s\<rparr>"
    using drain_closed_sent[OF closed] by (simp add: drain_ws) (simp add: push_pcm_def)
  also have "forget_socket (drain ?p) = forget_socket (drain ?o)"
    by (simp add: forget_drain same)
  also have "(forget_socket (drain ?o))\<lparr>ws := ws s, sent := sent s\<rparr> =
      (drain ?o)\<lparr>ws := ws s, sent := sent s\<rparr>"
    by (simp add: forget_socket_def)
  finally show ?thesis by (simp add: enqueuePcm_def)
qed

text \<open>
  Claim C8. While the socket is not open (there is none, or it is connecting, closing or
  closed), a call of \<open>enqueuePcm\<close> gives nothing to the socket and posts no status, and
  it leaves the document exactly as the same call with an open socket would, but for the
  socket and what was sent: the chunks it drains have left the queue, so none is kept for a
  later send or sent again. A block the worklet delivers meanwhile changes nothing at all.
\<close>

theorem send_dropped_when_not_open:
  "\<not> ws_is_open s \<Longrightarrow>
     sent (enqueuePcm buf s) = sent s \<and>
     statuses (enqueuePcm buf s) = statuses s \<and>
     enqueuePcm buf s =
       (enqueuePcm buf (s\<lparr>ws := Some OPEN_STATE\<rparr>))\<lparr>ws := ws s, sent := sent s\<rparr> \<and>
     worklet_onmessage input s = s"
proof -
  assume closed: "\<not> ws_is_open s"
  then have "\<not> ws_is_open (push_pcm buf s)"
    by (simp add: push_pcm_def ws_is_open_def)
  then have "sent (enqueuePcm buf s) = sent s"
    by (simp add: enqueuePcm_def drain_closed_sent) (simp add: push_pcm_def)
  moreover have "statuses (enqueuePcm buf s) = statuses s"
    by (simp add: enqueuePcm_def drain_statuses) (simp add: push_pcm_def)
  moreover have "worklet_onmessage input s = s"
    using closed by (simp add: worklet_onmessage_def split: option.splits)
  ultimately show ?thesis
    using enqueuePcm_closed[OF closed] by simp
qed

theorem send_dropped_when_not_open_witness:
  "\<not> ws_is_open (offscreen_init\<lparr>ws := Some CLOSED\<rparr>) \<and>
   sent (enqueuePcm (replicate 3200 7) (offscreen_init\<lparr>ws := Some CLOSED\<rparr>)) = [] \<and>
   statuses (enqueuePcm (replicate 3200 7) (offscreen_init\<lparr>ws := Some CLOSED\<rparr>)) = [] \<and>
   worklet_onmessage (Some [0, 1]) (offscreen_init\<lparr>ws := Some CLOSED\<rparr>) =
     offscreen_init\<lparr>ws := Some CLOSED\<rparr>"
proof -
  let ?s = "offscreen_init\<lparr>ws := Some CLOSED\<rparr>"
  have closed: "\<not> ws_is_open ?s"
    by (simp add: ws_is_open_def)
  have none: "sent ?s = []" "statuses ?s = []"
    by (simp_all add: offscreen_init_def)
  note dropped = send_dropped_when_not_open[OF closed, of "replicate 3200 7" "Some [0, 1]"]
  have "sent (enqueuePcm (replicate 3200 7) ?s) = sent ?s"
    using dropped by (rule conjunct1)
  moreover have "statuses (enqueuePcm (replicate 3200 7) ?s) = statuses ?s"
    using dropped by (elim conjE)
  moreover have "worklet_onmessage (Some [0, 1]) ?s = ?s"
    using dropped by (elim conjE)
  ultimately show ?thesis
    using closed none by (simp only: simp_thms)
qed

section \<open>The fallback: proofs\<close>

lemma drain_step_session:
  "sockets (drain_step s) = sockets s"
  "triedOpusFallback (drain_step s) = triedOpusFallback s"
  "currentMode (drain_step s) = currentMode s"
  by (simp_all add: drain_step_def drain_send_def drain_fill_def Let_def)

lemma drain_session:
  "sockets (drain s) = sockets s \<and> triedOpusFallback (drain s) = triedOpusFallback s \<and>
   currentMode (drain s) = currentMode s"
proof (induction s rule: drain.induct)
  case (1 s)
  then show ?case
    by (cases "PCM_TARGET_CHUNK_BYTES \<le> pcmBytesPending s")
       (simp_all add: drain.simps[of s] drain_step_session)
qed

lemma worklet_session:
  "sockets (worklet_onmessage input s) = sockets s \<and>
   triedOpusFallback (worklet_onmessage input s) = triedOpusFallback s \<and>
   currentMode (worklet_onmessage input s) = currentMode s"
  by (auto simp: worklet_onmessage_def enqueuePcm_def drain_session push_pcm_def
      split: option.splits sum.splits)

lemma step_after_fallback:
  "triedOpusFallback s \<Longrightarrow>
   triedOpusFallback (step ev s) \<and> fallbacks (step ev s) = fallbacks s"
  by (cases ev)
     (auto simp: fallbacks_def openDeepgramPCM_def stopAll_def ws_onopen_def ws_onerror_def
        ws_onclose_def postStatus_def worklet_session Let_def setupAudioPipeline_def
        ws_message_def split: option.splits action.splits)

lemma run_after_fallback:
  "triedOpusFallback s \<Longrightarrow>
   triedOpusFallback (run evs s) \<and> fallbacks (run evs s) = fallbacks s"
  by (induction evs rule: rev_induct) (simp_all add: run_snoc step_after_fallback)

lemma step_fallbacks:
  "fallbacks s = (if triedOpusFallback s then 1 else 0) \<Longrightarrow>
   fallbacks (step ev s) = (if triedOpusFallback (step ev s) then 1 else 0)"
  by (cases ev)
     (auto simp: fallbacks_def openDeepgramPCM_def stopAll_def ws_onopen_def ws_onerror_def
        ws_onclose_def startOpusFallback_def postStatus_def worklet_session Let_def
        setupAudioPipeline_def ws_message_def
        split: option.splits recorder_env.splits action.splits)

lemma run_fallbacks:
  "fallbacks s = (if triedOpusFallback s then 1 else 0) \<Longrightarrow>
   fallbacks (run evs s) = (if triedOpusFallback (run evs s) then 1 else 0)"
  by (induction evs rule: rev_induct) (simp_all add: run_snoc step_fallbacks)

lemma first_close_falls_back:
  assumes "currentMode s = PCM" "\<not> triedOpusFallback s"
  shows "currentMode (ws_onclose code reason renv s) = OPUS"
    and "triedOpusFallback (ws_onclose code reason renv s)"
    and "ws (ws_onclose code reason renv s) = Some CONNECTING"
    and "sockets (ws_onclose code reason renv s) = sockets s @ [OPUS]"
    and "fallbacks (ws_onclose code reason renv s) = fallbacks s + 1"
  using assms
  by (simp_all add: ws_onclose_def startOpusFallback_def postStatus_def fallbacks_def Let_def
      split: recorder_env.splits)

lemma later_close_reports:
  "triedOpusFallback s \<Longrightarrow>
   ws_onclose code reason renv s =
     postStatus (SocketClosed code reason) (s\<lparr>keepAliveTimer := False\<rparr>)"
  by (simp add: ws_onclose_def postStatus_def Let_def)

text \<open>
  Claim C3. Over the whole life of the document, whichever of the events above happen and
  in whatever order, at most one socket is ever opened in opus mode. A close that finds the document in PCM mode with
  the fallback not yet consumed connects anew in opus mode (the constructor of the socket is
  taken not to raise, as it did not for the PCM socket with the same protocols) and marks the
  fallback consumed. Every close after that, whatever has happened in between (a stop and a
  new start put the document back in PCM mode), only clears the timer and posts the status:
  no socket is opened, and the count of opus connections stays where the first close put it.
\<close>

theorem one_fallback_per_session:
  "fallbacks (run evs offscreen_init) \<le> 1 \<and>
   (currentMode s = PCM \<and> \<not> triedOpusFallback s \<longrightarrow>
      currentMode (ws_onclose code reason renv s) = OPUS \<and>
      triedOpusFallback (ws_onclose code reason renv s) \<and>
      ws (ws_onclose code reason renv s) = Some CONNECTING \<and>
      sockets (ws_onclose code reason renv s) = sockets s @ [OPUS] \<and>
      ws_onclose code' reason' renv' (run evs' (ws_onclose code reason renv s)) =
        postStatus (SocketClosed code' reason')
          ((run evs' (ws_onclose code reason renv s))\<lparr>keepAliveTimer := False\<rparr>) \<and>
      fallbacks (ws_onclose code' reason' renv' (run evs' (ws_onclose code reason renv s))) =
        fallbacks s + 1)"
proof -
  have "fallbacks offscreen_init = (if triedOpusFallback offscreen_init then 1 else 0)"
    by (simp add: fallbacks_def offscreen_init_def)
  from run_fallbacks[OF this, of evs]
  have session: "fallbacks (run evs offscreen_init) \<le> 1"
    by (simp split: if_splits)
  have after: "currentMode (ws_onclose code reason renv s) = OPUS \<and>
      triedOpusFallback (ws_onclose code reason renv s) \<and>
      ws (ws_onclose code reason renv s) = Some CONNECTING \<and>
      sockets (ws_onclose code reason renv s) = sockets s @ [OPUS] \<and>
      ws_onclose code' reason' renv' (run evs' (ws_onclose code reason renv s)) =
        postStatus (SocketClosed code' reason')
          ((run evs' (ws_onclose code reason renv s))\<lparr>keepAliveTimer := False\<rparr>) \<and>
      fallbacks (ws_onclose code' reason' renv' (run evs' (ws_onclose code reason renv s))) =
        fallbacks s + 1"
    if first: "currentMode s = PCM" "\<not> triedOpusFallback s"
  proof -
    let ?s1 = "ws_onclose code reason renv s"
    let ?s2 = "run evs' ?s1"
    note fb = first_close_falls_back[OF first, of code reason renv]
    have tried2: "triedOpusFallback ?s2" and count2: "fallbacks ?s2 = fallbacks s + 1"
      using run_after_fallback[OF fb(2), of evs'] fb(5) by simp_all
    have rep: "ws_onclose code' reason' renv' ?s2 =
        postStatus (SocketClosed code' reason') (?s2\<lparr>keepAliveTimer := False\<rparr>)"
      by (rule later_close_reports[OF tried2])
    have "fallbacks (ws_onclose code' reason' renv' ?s2) = fallbacks ?s2"
      by (simp add: rep postStatus_def fallbacks_def)
    with fb rep count2 show ?thesis by simp
  qed
  from session after show ?thesis by blast
qed

theorem one_fallback_per_session_witness:
  "currentMode (step (Start 48000) offscreen_init) = PCM \<and>
   \<not> triedOpusFallback (step (Start 48000) offscreen_init) \<and>
   currentMode (ws_onclose 1006 [] RecorderStarts (step (Start 48000) offscreen_init)) = OPUS \<and>
   sockets (ws_onclose 1006 [] RecorderStarts (step (Start 48000) offscreen_init)) =
     [PCM, OPUS] \<and>
   fallbacks (ws_onclose 1000 [] RecorderStarts
     (run [Stop, Start 44100]
        (ws_onclose 1006 [] RecorderStarts (step (Start 48000) offscreen_init)))) = 1"
proof -
  let ?s = "step (Start 48000) offscreen_init"
  have h: "currentMode ?s = PCM" "\<not> triedOpusFallback ?s"
    by (simp_all add: openDeepgramPCM_def setupAudioPipeline_def offscreen_init_def)
  have z: "sockets ?s = [PCM]" "fallbacks ?s = 0"
    by (simp_all add: openDeepgramPCM_def setupAudioPipeline_def offscreen_init_def fallbacks_def)
  note session = one_fallback_per_session[of "[]" ?s 1006 "[]" RecorderStarts 1000 "[]"
      RecorderStarts "[Stop, Start 44100]"]
  from session h have m: "currentMode (ws_onclose 1006 [] RecorderStarts ?s) = OPUS"
    by blast
  from session h have "sockets (ws_onclose 1006 [] RecorderStarts ?s) = sockets ?s @ [OPUS]"
    by blast
  then have so: "sockets (ws_onclose 1006 [] RecorderStarts ?s) = [PCM, OPUS]"
    by (simp only: z append.simps)
  from session h have "fallbacks (ws_onclose 1000 [] RecorderStarts
      (run [Stop, Start 44100] (ws_onclose 1006 [] RecorderStarts ?s))) = fallbacks ?s + 1"
    by blast
  then have f: "fallbacks (ws_onclose 1000 [] RecorderStarts
      (run [Stop, Start 44100] (ws_onclose 1006 [] RecorderStarts ?s))) = 1"
    by (simp only: z add_0)
  from h m so f show ?thesis by (simp only: simp_thms)
qed

section \<open>The reconciler: proofs\<close>

lemma count_of_bump: "count_of (bump x c) k = count_of c k + (if x = k then 1 else 0)"
  by (induction c) (auto simp: count_of_def)

lemma keys_bump:
  "object_keys (bump x c) =
     (if x \<in> set (object_keys c) then object_keys c else object_keys c @ [x])"
  by (induction c) (force simp: object_keys_def)+

lemma count_of_tally:
  "count_of (foldl (\<lambda>c k. bump k c) c0 tags) k = count_of c0 k + count_list tags k"
  by (induction tags arbitrary: c0) (auto simp: count_of_bump)

lemma set_first_seen: "set (first_seen xs) = set xs"
  by (induction xs) auto

lemma keys_tally:
  "object_keys (foldl (\<lambda>c k. bump k c) c0 tags) =
     object_keys c0 @ filter (\<lambda>y. y \<notin> set (object_keys c0)) (first_seen tags)"
proof (induction tags arbitrary: c0)
  case Nil
  then show ?case by simp
next
  case (Cons x xs)
  show ?case
  proof (cases "x \<in> set (object_keys c0)")
    case True
    then have "filter (\<lambda>y. y \<notin> set (object_keys c0)) (filter (\<lambda>y. y \<noteq> x) (first_seen xs)) =
        filter (\<lambda>y. y \<notin> set (object_keys c0)) (first_seen xs)"
      by (auto intro: filter_cong)
    with True show ?thesis by (simp add: Cons.IH keys_bump)
  next
    case False
    then have "filter (\<lambda>y. y \<noteq> x \<and> y \<notin> set (object_keys c0)) (first_seen xs) =
        filter (\<lambda>y. y \<notin> set (object_keys c0)) (filter (\<lambda>y. y \<noteq> x) (first_seen xs))"
      by (auto intro: filter_cong)
    with False show ?thesis by (simp add: Cons.IH keys_bump)
  qed
qed

lemma keys_tally_empty: "object_keys (foldl (\<lambda>c k. bump k c) [] tags) = first_seen tags"
  by (simp add: keys_tally) (simp add: object_keys_def)

lemma count_of_tally_empty: "count_of (foldl (\<lambda>c k. bump k c) [] tags) k = count_list tags k"
  by (simp add: count_of_tally) (simp add: count_of_def)

lemma tally_speakers:
  "foldl (\<lambda>c w. case w_speaker w of None \<Rightarrow> c | Some n \<Rightarrow> bump (speakerId n) c) c0 wds =
   foldl (\<lambda>c k. bump k c) c0 (map speakerId (List.map_filter w_speaker wds))"
  by (induction wds arbitrary: c0) (auto simp: List.map_filter_simps split: option.splits)

lemma tally_languages:
  "foldl (\<lambda>c w. case w_language w of None \<Rightarrow> c | Some l \<Rightarrow> if l = [] then c else bump l c) c0 wds =
   foldl (\<lambda>c k. bump k c) c0 (filter (\<lambda>l. l \<noteq> []) (List.map_filter w_language wds))"
  by (induction wds arbitrary: c0) (auto simp: List.map_filter_simps split: option.splits)

text \<open>The reduction keeps a key that has the highest count, and the last of those.\<close>

lemma pick_fold:
  "\<exists>pre post. k0 # ks = pre @ foldl (pick c) k0 ks # post \<and>
     (\<forall>k\<in>set pre. count_of c k \<le> count_of c (foldl (pick c) k0 ks)) \<and>
     (\<forall>k\<in>set post. count_of c k < count_of c (foldl (pick c) k0 ks))"
proof (induction ks rule: rev_induct)
  case Nil
  have "[k0] = [] @ k0 # []" by simp
  then show ?case by fastforce
next
  case (snoc k ks)
  let ?d = "foldl (pick c) k0 ks"
  from snoc obtain pre post where
    split: "k0 # ks = pre @ ?d # post"
    and le: "\<forall>x\<in>set pre. count_of c x \<le> count_of c ?d"
    and less: "\<forall>x\<in>set post. count_of c x < count_of c ?d"
    by blast
  show ?case
  proof (cases "count_of c ?d > count_of c k")
    case True
    then have d: "foldl (pick c) k0 (ks @ [k]) = ?d" by (simp add: pick_def)
    have "k0 # ks @ [k] = pre @ ?d # (post @ [k])" using split by simp
    moreover have "\<forall>x\<in>set (post @ [k]). count_of c x < count_of c ?d"
      using less True by auto
    ultimately show ?thesis unfolding d using le by blast
  next
    case False
    then have d: "foldl (pick c) k0 (ks @ [k]) = k" by (simp add: pick_def)
    have "k0 # ks @ [k] = (k0 # ks) @ k # []" by simp
    moreover have "\<forall>x\<in>set (k0 # ks). count_of c x \<le> count_of c k"
    proof
      fix x assume "x \<in> set (k0 # ks)"
      then have "x \<in> set pre \<or> x = ?d \<or> x \<in> set post" unfolding split by auto
      then have "count_of c x \<le> count_of c ?d" using le less by auto
      with False show "count_of c x \<le> count_of c k" by simp
    qed
    ultimately show ?thesis unfolding d by (metis empty_iff empty_set)
  qed
qed

lemma pick_same: "pick c k k = k"
  by (simp add: pick_def)

lemma dominant_of_tally:
  assumes "tags \<noteq> []"
  shows "\<exists>d pre post. dominant_language (foldl (\<lambda>c k. bump k c) [] tags) = Some d \<and>
      dominant_speaker (foldl (\<lambda>c k. bump k c) [] tags) = Some d \<and>
      first_seen tags = pre @ d # post \<and>
      (\<forall>k\<in>set pre. count_list tags k \<le> count_list tags d) \<and>
      (\<forall>k\<in>set post. count_list tags k < count_list tags d)"
proof -
  let ?c = "foldl (\<lambda>c k. bump k c) [] tags"
  from assms obtain k0 ks where keys: "first_seen tags = k0 # ks"
    by (cases tags) auto
  let ?d = "foldl (pick ?c) k0 ks"
  have dl: "dominant_language ?c = Some ?d"
    by (simp add: dominant_language_def keys_tally_empty keys)
  have ds: "dominant_speaker ?c = Some ?d"
    by (simp add: dominant_speaker_def keys_tally_empty keys pick_same)
  from pick_fold[of k0 ks ?c] obtain pre post where
    "k0 # ks = pre @ ?d # post"
    "\<forall>k\<in>set pre. count_of ?c k \<le> count_of ?c ?d"
    "\<forall>k\<in>set post. count_of ?c k < count_of ?c ?d"
    by blast
  then have "first_seen tags = pre @ ?d # post \<and>
      (\<forall>k\<in>set pre. count_list tags k \<le> count_list tags ?d) \<and>
      (\<forall>k\<in>set post. count_list tags k < count_list tags ?d)"
    by (simp add: keys count_of_tally_empty)
  with dl ds show ?thesis by blast
qed

lemma dominant_of_none:
  "dominant_language [] = None"
  "dominant_speaker [] = None"
  by (simp_all add: dominant_language_def dominant_speaker_def object_keys_def)

lemma resolve_speaker_tags:
  "resolve_speaker alt =
     (case dominant_speaker (foldl (\<lambda>c k. bump k c) [] (speaker_tags alt)) of
        None \<Rightarrow> ''Unknown Speaker'' | Some d \<Rightarrow> d)"
  by (cases "words alt")
     (auto simp: resolve_speaker_def speaker_tags_def count_speakers_def tally_speakers
        dominant_of_none List.map_filter_simps)

lemma resolve_language_tags:
  "resolve_language alt =
     (case dominant_language (foldl (\<lambda>c k. bump k c) [] (language_tags alt)) of
        None \<Rightarrow> sequence_language alt | Some d \<Rightarrow> d)"
  by (cases "words alt")
     (auto simp: resolve_language_def language_tags_def count_languages_def tally_languages
        dominant_of_none List.map_filter_simps)

lemma resolve_speaker_dominant:
  assumes "speaker_tags alt \<noteq> []"
  shows "\<exists>pre post.
         first_seen (speaker_tags alt) = pre @ resolve_speaker alt # post \<and>
         (\<forall>k\<in>set pre. count_list (speaker_tags alt) k
                          \<le> count_list (speaker_tags alt) (resolve_speaker alt)) \<and>
         (\<forall>k\<in>set post. count_list (speaker_tags alt) k
                          < count_list (speaker_tags alt) (resolve_speaker alt))"
proof -
  from dominant_of_tally[OF assms] obtain d pre post where
    d: "dominant_speaker (foldl (\<lambda>c k. bump k c) [] (speaker_tags alt)) = Some d"
    and rest: "first_seen (speaker_tags alt) = pre @ d # post"
      "\<forall>k\<in>set pre. count_list (speaker_tags alt) k \<le> count_list (speaker_tags alt) d"
      "\<forall>k\<in>set post. count_list (speaker_tags alt) k < count_list (speaker_tags alt) d"
    by blast
  have "resolve_speaker alt = d"
    by (simp add: resolve_speaker_tags d)
  with rest show ?thesis by blast
qed

lemma resolve_language_dominant:
  assumes "language_tags alt \<noteq> []"
  shows "\<exists>pre post.
         first_seen (language_tags alt) = pre @ resolve_language alt # post \<and>
         (\<forall>k\<in>set pre. count_list (language_tags alt) k
                          \<le> count_list (language_tags alt) (resolve_language alt)) \<and>
         (\<forall>k\<in>set post. count_list (language_tags alt) k
                          < count_list (language_tags alt) (resolve_language alt))"
proof -
  from dominant_of_tally[OF assms] obtain d pre post where
    d: "dominant_language (foldl (\<lambda>c k. bump k c) [] (language_tags alt)) = Some d"
    and rest: "first_seen (language_tags alt) = pre @ d # post"
      "\<forall>k\<in>set pre. count_list (language_tags alt) k \<le> count_list (language_tags alt) d"
      "\<forall>k\<in>set post. count_list (language_tags alt) k < count_list (language_tags alt) d"
    by blast
  have "resolve_language alt = d"
    by (simp add: resolve_language_tags d)
  with rest show ?thesis by blast
qed

lemmas reconcile_eval =
  resolve_speaker_def resolve_language_def sequence_language_def example_event_def tagged_def
  count_speakers_def count_languages_def speakerId_def string_of_nat.simps
  dominant_speaker_def dominant_language_def object_keys_def pick_def count_of_def
  speaker_tags_def language_tags_def List.map_filter_simps

text \<open>
  Claim C4, as stated, on a tie. Two words, the first tagged speaker 0 and the second
  speaker 1: both keys occur once, \<open>Speaker 0\<close> is met first, and the speaker resolved is
  \<open>Speaker 1\<close>.
\<close>

theorem speaker_tie_goes_to_later_key:
  "first_seen (speaker_tags (example_event (Some [tagged (Some 0) None, tagged (Some 1) None]) None)) =
     [''Speaker 0'', ''Speaker 1''] \<and>
   count_list (speaker_tags (example_event (Some [tagged (Some 0) None, tagged (Some 1) None]) None))
     ''Speaker 0'' =
   count_list (speaker_tags (example_event (Some [tagged (Some 0) None, tagged (Some 1) None]) None))
     ''Speaker 1'' \<and>
   resolve_speaker (example_event (Some [tagged (Some 0) None, tagged (Some 1) None]) None) =
     ''Speaker 1''"
  by (simp add: reconcile_eval)

text \<open>
  Claim C4, amended. When words of the event carry speaker tags, the speaker resolved is one
  of their keys; no key occurs more often among the words, and every key first met after it
  occurs strictly less often: of the keys with the highest count the one met last is chosen.
  When no word carries a speaker tag (or there are no words), the speaker is
  \<open>Unknown Speaker\<close>. The words tagged 0, 0, 1 resolve to \<open>Speaker 0\<close>.
\<close>

theorem speaker_resolution:
  "(speaker_tags alt \<noteq> [] \<longrightarrow>
      (\<exists>pre post.
         first_seen (speaker_tags alt) = pre @ resolve_speaker alt # post \<and>
         (\<forall>k\<in>set pre. count_list (speaker_tags alt) k
                          \<le> count_list (speaker_tags alt) (resolve_speaker alt)) \<and>
         (\<forall>k\<in>set post. count_list (speaker_tags alt) k
                          < count_list (speaker_tags alt) (resolve_speaker alt)))) \<and>
   (speaker_tags alt = [] \<longrightarrow> resolve_speaker alt = ''Unknown Speaker'') \<and>
   resolve_speaker
     (example_event (Some [tagged (Some 0) None, tagged (Some 0) None, tagged (Some 1) None]) None) =
     ''Speaker 0''"
proof (intro conjI impI)
  assume "speaker_tags alt \<noteq> []"
  then show "\<exists>pre post.
         first_seen (speaker_tags alt) = pre @ resolve_speaker alt # post \<and>
         (\<forall>k\<in>set pre. count_list (speaker_tags alt) k
                          \<le> count_list (speaker_tags alt) (resolve_speaker alt)) \<and>
         (\<forall>k\<in>set post. count_list (speaker_tags alt) k
                          < count_list (speaker_tags alt) (resolve_speaker alt))"
    by (rule resolve_speaker_dominant)
next
  assume "speaker_tags alt = []"
  then show "resolve_speaker alt = ''Unknown Speaker''"
    by (simp add: resolve_speaker_tags dominant_of_none)
next
  show "resolve_speaker
     (example_event (Some [tagged (Some 0) None, tagged (Some 0) None, tagged (Some 1) None]) None) =
     ''Speaker 0''"
    by (simp add: reconcile_eval)
qed

theorem speaker_resolution_witness:
  "speaker_tags (example_event (Some [tagged (Some 0) None, tagged (Some 1) None, tagged None None]) None)
     \<noteq> [] \<and>
   (\<exists>pre post.
      first_seen
        (speaker_tags (example_event (Some [tagged (Some 0) None, tagged (Some 1) None, tagged None None]) None)) =
      pre @ ''Speaker 1'' # post) \<and>
   speaker_tags (example_event (Some [tagged None (Some ''en'')]) None) = [] \<and>
   resolve_speaker (example_event (Some [tagged None (Some ''en'')]) None) = ''Unknown Speaker''"
proof -
  let ?a = "example_event (Some [tagged (Some 0) None, tagged (Some 1) None, tagged None None]) None"
  let ?b = "example_event (Some [tagged None (Some ''en'')]) None"
  have ta: "speaker_tags ?a \<noteq> []" and tb: "speaker_tags ?b = []"
    by (simp_all add: reconcile_eval)
  have ra: "resolve_speaker ?a = ''Speaker 1''"
    by (simp add: reconcile_eval)
  from speaker_resolution[of ?a] ta
  have "\<exists>pre post. first_seen (speaker_tags ?a) = pre @ resolve_speaker ?a # post"
    by blast
  then have "\<exists>pre post. first_seen (speaker_tags ?a) = pre @ ''Speaker 1'' # post"
    by (simp only: ra)
  moreover from speaker_resolution[of ?b] tb
  have "resolve_speaker ?b = ''Unknown Speaker''"
    by blast
  ultimately show ?thesis using ta tb by blast
qed




lemma resolve_language_nonempty: "resolve_language alt \<noteq> []"
proof (cases "language_tags alt = []")
  case True
  then show ?thesis
    by (simp add: resolve_language_tags dominant_of_none sequence_language_def
        split: option.splits list.splits)
next
  case False
  from resolve_language_dominant[OF this] obtain pre post where
    "first_seen (language_tags alt) = pre @ resolve_language alt # post"
    by blast
  then have "resolve_language alt \<in> set (first_seen (language_tags alt))"
    by simp
  then have "resolve_language alt \<in> set (language_tags alt)"
    by (simp add: set_first_seen)
  then show ?thesis
    by (auto simp: language_tags_def split: option.splits)
qed

text \<open>
  Claim C10. A \<open>Results\<close> message whose first alternative has a non-empty transcript is
  always answered by posting an utterance, and the language it carries is never the empty
  string. When the alternative has no languages sequence and none of its words carries a
  language tag, that language is \<open>en\<close> and the list of detected languages is empty.
\<close>

theorem utterance_language_defined:
  "msg_type msg = Some ''Results'' \<Longrightarrow> alternatives msg = alt # alts \<Longrightarrow>
   transcript alt = Some t \<Longrightarrow> t \<noteq> [] \<Longrightarrow>
   \<exists>m. ws_onmessage (Some msg) = PostMessage m \<and> msg_text m = t \<and> language m \<noteq> [] \<and>
       (languages alt = None \<and> language_tags alt = [] \<longrightarrow>
          language m = ''en'' \<and> detectedLanguages m = [])"
proof -
  assume a: "msg_type msg = Some ''Results''" "alternatives msg = alt # alts"
    "transcript alt = Some t" "t \<noteq> []"
  let ?m = "\<lparr>final = is_final msg, msg_text = t, speaker = resolve_speaker alt,
             language = resolve_language alt, detectedLanguages = resolve_detected alt,
             msg_words = words alt\<rparr>"
  have post: "ws_onmessage (Some msg) = PostMessage ?m"
    using a by (simp add: ws_onmessage_def)
  have en: "resolve_language alt = ''en'' \<and> resolve_detected alt = []"
    if "languages alt = None" "language_tags alt = []"
    using that
    by (simp add: resolve_language_tags dominant_of_none sequence_language_def
        resolve_detected_def)
  from post resolve_language_nonempty[of alt] en show ?thesis by auto
qed

theorem utterance_language_defined_witness:
  "\<exists>m. ws_onmessage
         (Some \<lparr>msg_type = Some ''Results'', alternatives = [example_event (Some [tagged (Some 0) None]) None],
                is_final = True, msg_message = None, msg_reason = None\<rparr>) = PostMessage m \<and>
       msg_text m = ''hola'' \<and> language m = ''en'' \<and> detectedLanguages m = []"
proof -
  let ?alt = "example_event (Some [tagged (Some 0) None]) None"
  let ?msg = "\<lparr>msg_type = Some ''Results'', alternatives = [?alt],
                is_final = True, msg_message = None, msg_reason = None\<rparr>"
  have h: "msg_type ?msg = Some ''Results''" "alternatives ?msg = ?alt # []"
    "transcript ?alt = Some ''hola''" "''hola'' \<noteq> []"
    by (simp_all add: example_event_def)
  have n: "languages ?alt = None" "language_tags ?alt = []"
    by (simp_all add: reconcile_eval)
  from utterance_language_defined[OF h] n show ?thesis by blast
qed

section \<open>The sample conversion: proofs\<close>

lemma setInt16_length [simp]: "length (setInt16 view offset v) = length view"
  by (simp add: setInt16_def)

lemma setInt16_nth:
  "offset + 1 < length view \<Longrightarrow>
   setInt16 view offset v ! p =
     (if p = offset then ucast (to_int16 v)
      else if p = offset + 1 then ucast (drop_bit 8 (to_int16 v))
      else view ! p)"
  by (auto simp: setInt16_def nth_list_update)

lemma clamp_unit_max_min: "max (- 1) (min 1 x) = clamp_unit x"
  by (simp add: clamp_unit_def max_def min_def)

lemma sample_value:
  "(if max (- 1) (min 1 x) < 0 then max (- 1) (min 1 x) * 32768
    else max (- 1) (min 1 x) * 32767) = scale_sample (clamp_unit x)"
  by (simp add: clamp_unit_max_min scale_sample_def)

lemma floatTo16_loop_length:
  "length (floatTo16_loop xs view i offset) = length view"
  by (induction xs view i offset rule: floatTo16_loop.induct)
     (simp add: floatTo16_loop.simps)

lemma floatTo16_loop_nth:
  "length view = 2 * length xs \<Longrightarrow> offset = 2 * i \<Longrightarrow>
   floatTo16_loop xs view i offset ! p =
     (if 2 * i \<le> p \<and> p < 2 * length xs
      then (if even p then ucast (to_int16 (scale_sample (clamp_unit (xs ! (p div 2)))))
            else ucast (drop_bit 8 (to_int16 (scale_sample (clamp_unit (xs ! (p div 2)))))))
      else view ! p)"
proof (induction xs view i offset arbitrary: p rule: floatTo16_loop.induct)
  case (1 xs view i offset)
  show ?case
  proof (cases "i < length xs")
    case False
    then have "floatTo16_loop xs view i offset = view"
      by (subst floatTo16_loop.simps) simp
    moreover have "\<not> (2 * i \<le> p \<and> p < 2 * length xs)"
      using False by arith
    ultimately show ?thesis
      by (simp only: if_False)
  next
    case True
    let ?v = "scale_sample (clamp_unit (xs ! i))"
    let ?view = "setInt16 view offset ?v"
    have step: "floatTo16_loop xs view i offset = floatTo16_loop xs ?view (i + 1) (offset + 2)"
      using True
      by (subst floatTo16_loop.simps) (simp only: sample_value if_True)
    have fits: "offset + 1 < length view"
      using True 1(2,3) by simp
    have ih: "floatTo16_loop xs ?view (i + 1) (offset + 2) ! p =
        (if 2 * (i + 1) \<le> p \<and> p < 2 * length xs
         then (if even p then ucast (to_int16 (scale_sample (clamp_unit (xs ! (p div 2)))))
               else ucast (drop_bit 8 (to_int16 (scale_sample (clamp_unit (xs ! (p div 2)))))))
         else ?view ! p)"
      using 1(1)[OF True, of p, unfolded sample_value] 1(2,3)
      by simp
    have here: "?view ! p =
        (if p = 2 * i then ucast (to_int16 ?v)
         else if p = 2 * i + 1 then ucast (drop_bit 8 (to_int16 ?v))
         else view ! p)"
      using setInt16_nth[OF fits, of ?v p] 1(3) by simp
    have halves: "(2 * i) div 2 = i" "(2 * i + 1) div 2 = i" "even (2 * i)" "odd (2 * i + 1)"
      by simp_all
    have "p = 2 * i \<or> p = 2 * i + 1 \<or> p < 2 * i \<or> 2 * (i + 1) \<le> p"
      by arith
    then consider "p = 2 * i" | "p = 2 * i + 1" | "p < 2 * i" | "2 * (i + 1) \<le> p"
      by blast
    then show ?thesis
    proof cases
      case 1
      then show ?thesis
        unfolding step ih here using True halves by simp
    next
      case 2
      then show ?thesis
        unfolding step ih here using True halves by simp
    next
      case 3
      then show ?thesis
        unfolding step ih here by simp
    next
      case 4
      then show ?thesis
        unfolding step ih here by simp
    qed
  qed
qed

lemma word_cat_bytes:
  "word_cat (ucast (drop_bit 8 w) :: 8 word) (ucast w :: 8 word) = (w :: 16 word)"
  by (rule bit_word_eqI) (auto simp: bit_word_cat_iff bit_ucast_iff bit_drop_bit_eq)

lemma sint_to_int16:
  "- 32768 \<le> v \<Longrightarrow> v \<le> 32767 \<Longrightarrow> sint (to_int16 v) = truncate_rat v"
proof -
  assume lo: "- 32768 \<le> v" and hi: "v \<le> 32767"
  have t: "(if v < 0 then - \<lfloor>- v\<rfloor> else \<lfloor>v\<rfloor>) = truncate_rat v"
    by (simp add: truncate_rat_def ceiling_def)
  have "- 32768 \<le> truncate_rat v" "truncate_rat v \<le> 32767"
    using lo hi by (auto simp: truncate_rat_def le_floor_iff floor_le_iff le_ceiling_iff ceiling_le_iff)
  then have "signed_take_bit 15 (truncate_rat v) = truncate_rat v"
    by (intro signed_take_bit_int_eq_self) simp_all
  then show ?thesis
    by (simp add: to_int16_def t sint_sbintrunc')
qed

lemma scale_range:
  "- 32768 \<le> scale_sample (clamp_unit x)" "scale_sample (clamp_unit x) \<le> 32767"
  by (auto simp: scale_sample_def clamp_unit_def)

text \<open>
  Claim C6. The buffer \<open>floatTo16BitPCM\<close> returns has two bytes for each sample. Read as a
  signed 16-bit little-endian integer, the pair of sample \<open>i\<close> is the sample clamped to
  \<open>[-1, 1]\<close>, then multiplied by 32768 when negative and by 32767 otherwise, then cut to an
  integer (towards zero); that integer lies in the 16-bit range, so nothing wraps. The inputs
  1, -1 and 0 give 32767, -32768 and 0; the bytes of 1 are \<open>FF 7F\<close>, those of -1 are
  \<open>00 80\<close>.
\<close>

theorem floatTo16BitPCM_samples:
  "length (floatTo16BitPCM xs) = 2 * length xs \<and>
   (\<forall>i<length xs.
      int16_le (floatTo16BitPCM xs) (2 * i) = truncate_rat (scale_sample (clamp_unit (xs ! i))) \<and>
      - 1 \<le> clamp_unit (xs ! i) \<and> clamp_unit (xs ! i) \<le> 1 \<and>
      - 32768 \<le> int16_le (floatTo16BitPCM xs) (2 * i) \<and>
      int16_le (floatTo16BitPCM xs) (2 * i) \<le> 32767) \<and>
   int16_le (floatTo16BitPCM [1]) 0 = 32767 \<and>
   int16_le (floatTo16BitPCM [- 1]) 0 = - 32768 \<and>
   int16_le (floatTo16BitPCM [0]) 0 = 0 \<and>
   floatTo16BitPCM [1] = [0xFF, 0x7F] \<and>
   floatTo16BitPCM [- 1] = [0x00, 0x80]"
proof -
  have len: "length (floatTo16BitPCM xs) = 2 * length xs"
    by (simp add: floatTo16BitPCM_def floatTo16_loop_length)
  have val: "int16_le (floatTo16BitPCM xs) (2 * i) =
      truncate_rat (scale_sample (clamp_unit (xs ! i)))" if "i < length xs" for i
  proof -
    let ?w = "to_int16 (scale_sample (clamp_unit (xs ! i)))"
    have "floatTo16BitPCM xs ! (2 * i) = ucast ?w"
      "floatTo16BitPCM xs ! (2 * i + 1) = ucast (drop_bit 8 ?w)"
      using that by (simp_all add: floatTo16BitPCM_def floatTo16_loop_nth)
    then have "int16_le (floatTo16BitPCM xs) (2 * i) = sint ?w"
      by (simp add: int16_le_def word_cat_bytes)
    then show ?thesis
      by (simp add: sint_to_int16 scale_range)
  qed
  have rng: "- 32768 \<le> truncate_rat (scale_sample (clamp_unit x)) \<and>
      truncate_rat (scale_sample (clamp_unit x)) \<le> 32767" for x
    using scale_range[of x]
    by (auto simp: truncate_rat_def le_floor_iff floor_le_iff le_ceiling_iff ceiling_le_iff)
  have cl: "- 1 \<le> clamp_unit x \<and> clamp_unit x \<le> 1" for x
    by (simp add: clamp_unit_def)
  have ex: "int16_le (floatTo16BitPCM [1]) 0 = 32767"
    "int16_le (floatTo16BitPCM [- 1]) 0 = - 32768"
    "int16_le (floatTo16BitPCM [0]) 0 = 0"
    "floatTo16BitPCM [1] = [0xFF, 0x7F]"
    "floatTo16BitPCM [- 1] = [0x00, 0x80]"
    by code_simp+
  show ?thesis
    using len val rng cl ex by simp
qed

theorem floatTo16BitPCM_samples_witness:
  "(1::nat) < length [1 / 2, - 3 :: rat] \<and>
   int16_le (floatTo16BitPCM [1 / 2, - 3]) (2 * 1) =
     truncate_rat (scale_sample (clamp_unit ([1 / 2, - 3] ! 1))) \<and>
   truncate_rat (scale_sample (clamp_unit ([1 / 2, - 3] ! 1))) = - 32768 \<and>
   int16_le (floatTo16BitPCM [1 / 2, - 3]) 0 = 16383"
proof -
  have l: "(1::nat) < length [1 / 2, - 3 :: rat]" "(0::nat) < length [1 / 2, - 3 :: rat]"
    by simp_all
  note all = floatTo16BitPCM_samples[of "[1 / 2, - 3]"]
  from all l(1) have a: "int16_le (floatTo16BitPCM [1 / 2, - 3]) (2 * 1) =
      truncate_rat (scale_sample (clamp_unit ([1 / 2, - 3] ! 1)))"
    by blast
  have b: "truncate_rat (scale_sample (clamp_unit ([1 / 2, - 3 :: rat] ! 1))) = - 32768"
    by (simp add: truncate_rat_def scale_sample_def clamp_unit_def)
  from all l(2) have "int16_le (floatTo16BitPCM [1 / 2, - 3]) (2 * 0) =
      truncate_rat (scale_sample (clamp_unit ([1 / 2, - 3] ! 0)))"
    by blast
  moreover have "truncate_rat (scale_sample (clamp_unit ([1 / 2, - 3 :: rat] ! 0))) = 16383"
    by code_simp
  ultimately have c: "int16_le (floatTo16BitPCM [1 / 2, - 3]) 0 = 16383"
    by simp
  from l a b c show ?thesis by blast
qed

section \<open>The resampler: proofs\<close>

















end
